theory Spec2Isabelle
  imports Main "HOL-Library.Word"
begin

unbundle bit_operations_syntax

section \<open>KUID: data model\<close>

text \<open>
  The Go package \<^verbatim>\<open>kuid\<close> stores a 128-bit identifier as two \<^verbatim>\<open>uint64\<close> halves.
  Go strings and byte slices are sequences of bytes: a string is a \<^typ>\<open>char list\<close>
  (an Isabelle \<^typ>\<open>char\<close> is one byte), a \<^verbatim>\<open>[]byte\<close> is a list of 8-bit words.
\<close>

type_synonym u64 = "64 word"
type_synonym byte = "8 word"

record KUID =
  msb :: u64
  lsb :: u64

text \<open>
  The three sentinel errors of the package, the anonymous error that \<^verbatim>\<open>FromBytes\<close>
  builds with \<^verbatim>\<open>errors.New("byte slice must be exactly 16 bytes")\<close>, and the run-time
  panic of an out-of-range string index.
\<close>

datatype error =
    ErrInvalidLength
  | ErrInvalidChar
  | ErrInvalidUUID
  | ErrByteSliceNot16
  | PanicIndexOutOfRange

definition base62Chars :: string where
  "base62Chars = ''0123456789ABCDEFGHIJKLMNOPQRSTUVWXYZabcdefghijklmnopqrstuvwxyz''"

definition base :: u64 where
  "base = of_nat (length base62Chars)"

definition size_enc :: nat where
  "size_enc = 11"

section \<open>The base-62 codec\<close>

text \<open>
  \<^verbatim>\<open>strings.IndexByte(s, c)\<close>: the index of the first \<^verbatim>\<open>c\<close> in \<^verbatim>\<open>s\<close>, or \<^verbatim>\<open>-1\<close>.
\<close>

fun IndexByte :: "string \<Rightarrow> char \<Rightarrow> int" where
  "IndexByte [] c = - 1"
| "IndexByte (x # xs) c =
     (if x = c then 0
      else (let r = IndexByte xs c in if r < 0 then - 1 else r + 1))"

text \<open>
  The loop of \<^verbatim>\<open>encodeLong\<close>, \<^verbatim>\<open>for i := size - 1; i >= 0; i--\<close>. The first argument is
  \<^verbatim>\<open>i + 1\<close>, so that the loop ends at 0; each round writes \<^verbatim>\<open>bytes[i]\<close> and divides
  the value. The index \<^verbatim>\<open>value % base\<close> is below 62, inside \<^verbatim>\<open>base62Chars\<close>.
\<close>

fun encodeLoop :: "nat \<Rightarrow> u64 \<Rightarrow> string \<Rightarrow> string" where
  "encodeLoop 0 v bytes = bytes"
| "encodeLoop (Suc i) v bytes =
     encodeLoop i (v div base) (bytes[i := base62Chars ! unat (v mod base)])"

definition encodeLong :: "u64 \<Rightarrow> string" where
  "encodeLong v = encodeLoop size_enc v (replicate size_enc (CHR 0x00))"

text \<open>
  The loop of \<^verbatim>\<open>decodeLong\<close> over the bytes of \<^verbatim>\<open>s\<close>, left to right; the
  accumulation \<^verbatim>\<open>value*base + uint64(digit)\<close> is 64-bit arithmetic and wraps.
\<close>

fun decodeLoop :: "string \<Rightarrow> u64 \<Rightarrow> error + u64" where
  "decodeLoop [] v = Inr v"
| "decodeLoop (c # cs) v =
     (let digit = IndexByte base62Chars c
      in if digit < 0 then Inl ErrInvalidChar
         else decodeLoop cs (v * base + of_int digit))"

definition decodeLong :: "string \<Rightarrow> error + u64" where
  "decodeLong s =
     (if length s \<noteq> size_enc then Inl ErrInvalidLength else decodeLoop s 0)"

section \<open>Compact text\<close>

definition KUID_String :: "KUID \<Rightarrow> string" where
  "KUID_String k = encodeLong (msb k) @ encodeLong (lsb k)"

definition FromString :: "string \<Rightarrow> error + KUID" where
  "FromString s =
     (if length s \<noteq> size_enc * 2 then Inl ErrInvalidLength
      else case decodeLong (take size_enc s) of
             Inl err \<Rightarrow> Inl err
           | Inr m \<Rightarrow>
               (case decodeLong (drop size_enc s) of
                  Inl err \<Rightarrow> Inl err
                | Inr l \<Rightarrow> Inr \<lparr>msb = m, lsb = l\<rparr>))"

text \<open>
  \<^verbatim>\<open>Equal\<close> takes a pointer, which may be \<^verbatim>\<open>nil\<close>: the argument is an option.
\<close>

definition Equal :: "KUID \<Rightarrow> KUID option \<Rightarrow> bool" where
  "Equal k other =
     (case other of
        None \<Rightarrow> False
      | Some other' \<Rightarrow> msb k = msb other' \<and> lsb k = lsb other')"

section \<open>Binary form\<close>

text \<open>
  \<^verbatim>\<open>binary.BigEndian.Uint64\<close> and \<^verbatim>\<open>PutUint64\<close> of the Go standard library, on a
  slice of (at least) eight bytes:
  \<^verbatim>\<open>uint64(b[7]) | uint64(b[6])<<8 | ... | uint64(b[0])<<56\<close> and
  \<^verbatim>\<open>b[0] = byte(v >> 56); ...; b[7] = byte(v)\<close>. Both callers pass slices of exactly
  eight bytes.
\<close>

definition BigEndian_Uint64 :: "byte list \<Rightarrow> u64" where
  "BigEndian_Uint64 b =
     ucast (b ! 7) OR push_bit 8 (ucast (b ! 6)) OR push_bit 16 (ucast (b ! 5))
       OR push_bit 24 (ucast (b ! 4)) OR push_bit 32 (ucast (b ! 3))
       OR push_bit 40 (ucast (b ! 2)) OR push_bit 48 (ucast (b ! 1))
       OR push_bit 56 (ucast (b ! 0))"

definition BigEndian_PutUint64 :: "byte list \<Rightarrow> u64 \<Rightarrow> byte list" where
  "BigEndian_PutUint64 b v =
     b[0 := ucast (drop_bit 56 v), 1 := ucast (drop_bit 48 v),
       2 := ucast (drop_bit 40 v), 3 := ucast (drop_bit 32 v),
       4 := ucast (drop_bit 24 v), 5 := ucast (drop_bit 16 v),
       6 := ucast (drop_bit 8 v), 7 := ucast v]"

text \<open>A Go slice expression \<^verbatim>\<open>s[i:j]\<close> with \<^verbatim>\<open>i \<le> j \<le> len(s)\<close>.\<close>

definition slice :: "'a list \<Rightarrow> nat \<Rightarrow> nat \<Rightarrow> 'a list" where
  "slice s i j = take (j - i) (drop i s)"

definition FromBytes :: "byte list \<Rightarrow> error + KUID" where
  "FromBytes b =
     (if length b \<noteq> 16 then Inl ErrByteSliceNot16
      else Inr \<lparr>msb = BigEndian_Uint64 (slice b 0 8),
                lsb = BigEndian_Uint64 (slice b 8 16)\<rparr>)"

text \<open>
  \<^verbatim>\<open>Bytes\<close> allocates 16 zero bytes and writes each half through a window of eight
  bytes; the two windows \<^verbatim>\<open>b[0:8]\<close> and \<^verbatim>\<open>b[8:16]\<close> are disjoint and cover \<^verbatim>\<open>b\<close>.
\<close>

definition Bytes :: "KUID \<Rightarrow> byte list" where
  "Bytes k =
     (let b = replicate 16 (0 :: byte)
      in BigEndian_PutUint64 (slice b 0 8) (msb k)
         @ BigEndian_PutUint64 (slice b 8 16) (lsb k))"

section \<open>UUID text\<close>

text \<open>
  \<^verbatim>\<open>encoding/hex\<close> of the Go standard library. \<^verbatim>\<open>reverseHexTable\<close> maps a hexadecimal
  digit of either case to its value and every other byte to \<^verbatim>\<open>0xff\<close>.
\<close>

datatype hex_error = InvalidByteError char | ErrLength

definition hextable :: string where
  "hextable = ''0123456789abcdef''"

definition reverseHexTable :: "char \<Rightarrow> byte" where
  "reverseHexTable c =
     (let n = (of_char c :: nat)
      in if 48 \<le> n \<and> n \<le> 57 then of_nat (n - 48)
         else if 65 \<le> n \<and> n \<le> 70 then of_nat (n - 65 + 10)
         else if 97 \<le> n \<and> n \<le> 102 then of_nat (n - 97 + 10)
         else 0xff)"

fun hex_Decode :: "string \<Rightarrow> hex_error + byte list" where
  "hex_Decode [] = Inr []"
| "hex_Decode [p] =
     (if reverseHexTable p > 0x0f then Inl (InvalidByteError p) else Inl ErrLength)"
| "hex_Decode (p # q # src) =
     (let a = reverseHexTable p; b = reverseHexTable q
      in if a > 0x0f then Inl (InvalidByteError p)
         else if b > 0x0f then Inl (InvalidByteError q)
         else (case hex_Decode src of
                 Inl e \<Rightarrow> Inl e
               | Inr dst \<Rightarrow> Inr ((push_bit 4 a OR b) # dst)))"

fun hex_EncodeToString :: "byte list \<Rightarrow> string" where
  "hex_EncodeToString [] = []"
| "hex_EncodeToString (v # src) =
     hextable ! unat (drop_bit 4 v) # hextable ! unat (v AND 0x0f)
       # hex_EncodeToString src"

text \<open>
  \<^verbatim>\<open>strings.HasPrefix\<close>; \<^verbatim>\<open>strings.ReplaceAll(s, "-", "")\<close>, which deletes every hyphen;
  \<^verbatim>\<open>strings.ContainsRune\<close> for a one-byte rune.
\<close>

definition HasPrefix :: "string \<Rightarrow> string \<Rightarrow> bool" where
  "HasPrefix s prefix = (length prefix \<le> length s \<and> take (length prefix) s = prefix)"

definition removeHyphens :: "string \<Rightarrow> string" where
  "removeHyphens s = filter (\<lambda>c. c \<noteq> CHR ''-'') s"

definition ContainsRune :: "string \<Rightarrow> char \<Rightarrow> bool" where
  "ContainsRune s c = (c \<in> set s)"

text \<open>A string index \<^verbatim>\<open>s[i]\<close>, which panics out of range.\<close>

definition byteAt :: "string \<Rightarrow> nat \<Rightarrow> error + char" where
  "byteAt s i = (if i < length s then Inr (s ! i) else Inl PanicIndexOutOfRange)"

text \<open>
  The condition \<^verbatim>\<open>uuid[8] != '-' || uuid[13] != '-' || uuid[18] != '-' || uuid[23] != '-'\<close>,
  evaluated left to right with short circuit: the first index out of range panics,
  the first byte that is no hyphen makes the condition true.
\<close>

fun someNotHyphen :: "string \<Rightarrow> nat list \<Rightarrow> error + bool" where
  "someNotHyphen s [] = Inr False"
| "someNotHyphen s (i # is) =
     (case byteAt s i of
        Inl e \<Rightarrow> Inl e
      | Inr c \<Rightarrow> if c \<noteq> CHR ''-'' then Inr True else someNotHyphen s is)"

text \<open>
  \<^verbatim>\<open>FromUUID\<close>. The loop \<^verbatim>\<open>for _, c := range clean\<close> walks over runes: an ASCII byte
  is a rune of its own, and a byte from \<^verbatim>\<open>0x80\<close> on only ever gives a rune outside
  ASCII (or the replacement rune), which the set of hexadecimal digits does not hold.
  So the loop returns the error exactly when some byte of \<^verbatim>\<open>clean\<close> is no
  hexadecimal digit, which is what the model tests byte by byte.
\<close>

definition FromUUID :: "string \<Rightarrow> error + KUID" where
  "FromUUID uuid =
     (if \<not> HasPrefix uuid [] \<and> length uuid \<noteq> 36 then Inl ErrInvalidUUID
      else case someNotHyphen uuid [8, 13, 18, 23] of
             Inl e \<Rightarrow> Inl e
           | Inr True \<Rightarrow> Inl ErrInvalidUUID
           | Inr False \<Rightarrow>
               (let clean = removeHyphens uuid
                in if length clean \<noteq> 32 then Inl ErrInvalidUUID
                   else if \<not> list_all (ContainsRune ''0123456789abcdefABCDEF'') clean
                     then Inl ErrInvalidUUID
                   else (case hex_Decode clean of
                           Inl err \<Rightarrow> Inl ErrInvalidUUID
                         | Inr bytes \<Rightarrow> FromBytes bytes)))"

definition ToUUID :: "KUID \<Rightarrow> string" where
  "ToUUID k =
     (let bytes = Bytes k; uuid = hex_EncodeToString bytes
      in slice uuid 0 8 @ ''-'' @ slice uuid 8 12 @ ''-'' @ slice uuid 12 16 @ ''-''
           @ slice uuid 16 20 @ ''-'' @ drop 20 uuid)"

section \<open>Notions used to state the properties\<close>

text \<open>
  The \<open>n\<close> low base-62 digits of a number, most significant first, written with the
  alphabet; and the number that a string of alphabet characters denotes in base 62,
  without any bound.
\<close>

fun digits62 :: "nat \<Rightarrow> nat \<Rightarrow> string" where
  "digits62 0 x = []"
| "digits62 (Suc n) x = digits62 n (x div 62) @ [base62Chars ! (x mod 62)]"

fun value62 :: "string \<Rightarrow> nat \<Rightarrow> nat" where
  "value62 [] a = a"
| "value62 (c # cs) a = value62 cs (a * 62 + nat (IndexByte base62Chars c))"

text \<open>
  The number that a sequence of bytes denotes when read big-endian: the first byte is
  the most significant.
\<close>

fun be_value :: "byte list \<Rightarrow> nat \<Rightarrow> nat" where
  "be_value [] a = a"
| "be_value (x # xs) a = be_value xs (a * 256 + unat x)"

text \<open>
  Hexadecimal digits of either case, the lower-case form of a hexadecimal digit, and
  the shape of a UUID text: 36 characters, hyphens at the positions 8, 13, 18 and 23,
  hexadecimal digits everywhere else.
\<close>

definition isHexDigit :: "char \<Rightarrow> bool" where
  "isHexDigit c = (c \<in> set ''0123456789abcdefABCDEF'')"

definition lowerHex :: "char \<Rightarrow> char" where
  "lowerHex c =
     (if c = CHR ''A'' then CHR ''a'' else if c = CHR ''B'' then CHR ''b''
      else if c = CHR ''C'' then CHR ''c'' else if c = CHR ''D'' then CHR ''d''
      else if c = CHR ''E'' then CHR ''e'' else if c = CHR ''F'' then CHR ''f''
      else c)"

definition uuidShaped :: "string \<Rightarrow> bool" where
  "uuidShaped u =
     (length u = 36 \<and>
      list_all (\<lambda>i. if i \<in> set [8, 13, 18, 23] then u ! i = CHR ''-'' else isHexDigit (u ! i))
        [0..<36])"

section \<open>The alphabet\<close>

lemma length_base62Chars: "length base62Chars = 62"
  by (simp add: base62Chars_def)

lemma base_62: "base = 62"
  by (simp add: base_def length_base62Chars)

lemma distinct_base62Chars: "distinct base62Chars"
  by (simp add: base62Chars_def)

lemma IndexByte_neg_iff: "IndexByte xs c < 0 \<longleftrightarrow> c \<notin> set xs"
  by (induction xs) (auto simp: Let_def)

lemma IndexByte_nth:
  "distinct xs \<Longrightarrow> i < length xs \<Longrightarrow> IndexByte xs (xs ! i) = int i"
proof (induction xs arbitrary: i)
  case Nil
  then show ?case by simp
next
  case (Cons x xs)
  show ?case
  proof (cases i)
    case 0
    then show ?thesis by simp
  next
    case (Suc j)
    with Cons.prems have j: "j < length xs" and d: "distinct xs" and nx: "xs ! j \<noteq> x"
      by auto
    from Cons.IH [OF d j] Suc nx show ?thesis
      by (simp add: Let_def)
  qed
qed

lemma IndexByte_bound:
  "c \<in> set xs \<Longrightarrow> 0 \<le> IndexByte xs c \<and> IndexByte xs c < int (length xs)"
  by (induction xs) (auto simp: Let_def)

section \<open>Encoding writes the eleven low digits\<close>

lemma encodeLoop_digits:
  "n \<le> length bs \<Longrightarrow> encodeLoop n v bs = digits62 n (unat v) @ drop n bs"
proof (induction n arbitrary: v bs)
  case 0
  then show ?case by simp
next
  case (Suc n)
  then have n: "n \<le> length bs" and lt: "n < length bs" by simp_all
  have "encodeLoop (Suc n) v bs
      = encodeLoop n (v div base) (bs[n := base62Chars ! unat (v mod base)])"
    by simp
  also have "\<dots> = digits62 n (unat (v div base))
      @ drop n (bs[n := base62Chars ! unat (v mod base)])"
    using n by (simp add: Suc.IH)
  also have "drop n (bs[n := base62Chars ! unat (v mod base)])
      = base62Chars ! unat (v mod base) # drop (Suc n) bs"
    using lt
    by (simp add: drop_update_cancel Cons_nth_drop_Suc [symmetric] upd_conv_take_nth_drop)
  finally show ?case
    by (simp add: base_62 unat_div unat_mod)
qed

lemma encodeLong_digits: "encodeLong v = digits62 11 (unat v)"
  by (simp add: encodeLong_def size_enc_def encodeLoop_digits)

lemma length_digits62: "length (digits62 n x) = n"
  by (induction n arbitrary: x) auto

lemma set_digits62: "set (digits62 n x) \<subseteq> set base62Chars"
  by (induction n arbitrary: x) (auto simp: length_base62Chars)

section \<open>Decoding computes the base-62 value modulo \<open>2 ^ 64\<close>\<close>

lemma decodeLoop_value62:
  "set s \<subseteq> set base62Chars \<Longrightarrow> decodeLoop s (of_nat a) = Inr (of_nat (value62 s a))"
proof (induction s arbitrary: a)
  case Nil
  then show ?case by simp
next
  case (Cons c cs)
  then have c: "c \<in> set base62Chars" and cs: "set cs \<subseteq> set base62Chars" by auto
  from c have nn: "0 \<le> IndexByte base62Chars c" by (simp add: IndexByte_bound)
  have "(of_nat a :: u64) * base + of_int (IndexByte base62Chars c)
      = of_nat (a * 62 + nat (IndexByte base62Chars c))"
    using nn by (simp add: base_62)
  with Cons.IH [OF cs, of "a * 62 + nat (IndexByte base62Chars c)"] nn
  show ?case by (simp add: Let_def)
qed

lemma value62_append: "value62 (xs @ ys) a = value62 ys (value62 xs a)"
  by (induction xs arbitrary: a) auto

lemma value62_digits62: "value62 (digits62 n x) a = a * 62 ^ n + x mod 62 ^ n"
proof (induction n arbitrary: x)
  case 0
  then show ?case by simp
next
  case (Suc n)
  have idx: "nat (IndexByte base62Chars (base62Chars ! (x mod 62))) = x mod 62"
    by (simp add: IndexByte_nth distinct_base62Chars length_base62Chars)
  have "x mod (62 * 62 ^ n) = 62 * (x div 62 mod 62 ^ n) + x mod 62"
    by (rule mod_mult2_eq)
  then show ?case
    by (simp add: value62_append Suc.IH idx algebra_simps)
qed

lemma pow62_gt: "(2::nat) ^ 64 < 62 ^ 11"
  by simp

lemma decode_encode: "decodeLong (encodeLong v) = Inr v"
proof -
  have "unat v < 2 ^ 64" using unsigned_less [of v] by simp
  then have small: "unat v mod 62 ^ 11 = unat v" using pow62_gt by simp
  have "decodeLoop (digits62 11 (unat v)) (of_nat 0)
      = Inr (of_nat (value62 (digits62 11 (unat v)) 0))"
    by (rule decodeLoop_value62) (rule set_digits62)
  then show ?thesis
    using small
    by (simp add: decodeLong_def encodeLong_digits length_digits62 size_enc_def
        value62_digits62)
qed

section \<open>Further facts about the codec and the compact text\<close>

lemma decodeLoop_bad:
  "\<exists>c\<in>set s. c \<notin> set base62Chars \<Longrightarrow> decodeLoop s a = Inl ErrInvalidChar"
  by (induction s arbitrary: a) (auto simp: Let_def IndexByte_neg_iff)

lemma decodeLoop_good:
  "set s \<subseteq> set base62Chars \<Longrightarrow> \<exists>v. decodeLoop s a = Inr v"
  by (induction s arbitrary: a) (auto simp: Let_def IndexByte_neg_iff)

lemma decodeLoop_cases:
  "decodeLoop s a = Inl ErrInvalidChar \<or> (\<exists>v. decodeLoop s a = Inr v)"
proof (cases "set s \<subseteq> set base62Chars")
  case True
  then show ?thesis using decodeLoop_good [of s a] by simp
next
  case False
  then have "\<exists>c\<in>set s. c \<notin> set base62Chars" by auto
  then show ?thesis by (simp add: decodeLoop_bad)
qed

lemma length_encodeLong: "length (encodeLong v) = 11"
  by (simp add: encodeLong_digits length_digits62)

lemma encodeLong_inj: "encodeLong a = encodeLong b \<Longrightarrow> a = b"
proof -
  assume "encodeLong a = encodeLong b"
  then have "decodeLong (encodeLong a) = decodeLong (encodeLong b)" by simp
  then show "a = b" by (simp add: decode_encode)
qed

lemma FromString_String: "FromString (KUID_String k) = Inr k"
  by (simp add: FromString_def KUID_String_def size_enc_def length_encodeLong decode_encode)

lemma digits62_zero: "digits62 m 0 = replicate m (CHR ''0'')"
  by (induction m) (simp_all add: base62Chars_def replicate_append_same)

lemma digits62_padding:
  "x < 62 ^ n \<Longrightarrow> take (m - n) (digits62 m x) = replicate (m - n) (CHR ''0'')"
proof (induction m arbitrary: x n)
  case 0
  then show ?case by simp
next
  case (Suc m)
  show ?case
  proof (cases n)
    case 0
    with Suc.prems have "x = 0" by simp
    then show ?thesis using 0 digits62_zero [of "Suc m"] by simp
  next
    case (Suc n')
    with Suc.prems have "x div 62 < 62 ^ n'"
      by (simp add: less_mult_imp_div_less mult.commute)
    from Suc.IH [OF this, of ] show ?thesis
      using Suc by (simp add: length_digits62)
  qed
qed

lemma value62_z: "value62 ''zzzzzzzzzzz'' 0 = 62 ^ 11 - 1"
  by (simp add: base62Chars_def)

lemma decodeLong_z: "decodeLong ''zzzzzzzzzzz'' = Inr (of_nat ((62 ^ 11 - 1) mod 2 ^ 64))"
  by (simp add: decodeLong_def size_enc_def base62Chars_def base_62)

lemma FromString_swap:
  assumes "length a = 11" "length b = 11" "FromString (a @ b) = Inr k"
  shows "FromString (b @ a) = Inr \<lparr>msb = lsb k, lsb = msb k\<rparr>"
  using assms by (auto simp: FromString_def size_enc_def split: sum.splits)

lemma FromString_len: "length s \<noteq> 22 \<Longrightarrow> FromString s = Inl ErrInvalidLength"
  by (simp add: FromString_def size_enc_def)

lemma decodeLong_bad: "length s = 11 \<Longrightarrow> \<exists>c\<in>set s. c \<notin> set base62Chars \<Longrightarrow> decodeLong s = Inl ErrInvalidChar"
  by (simp add: decodeLong_def size_enc_def decodeLoop_bad)

lemma decodeLong_cases: "length s = 11 \<Longrightarrow> decodeLong s = Inl ErrInvalidChar \<or> (\<exists>v. decodeLong s = Inr v)"
  using decodeLoop_cases [of s 0] by (simp add: decodeLong_def size_enc_def)

lemma FromString_bad:
  assumes len: "length s = 22" and bad: "\<exists>c\<in>set s. c \<notin> set base62Chars"
  shows "FromString s = Inl ErrInvalidChar"
proof -
  have l1: "length (take 11 s) = 11" and l2: "length (drop 11 s) = 11" using len by simp_all
  from bad have "\<exists>c\<in>set (take 11 s @ drop 11 s). c \<notin> set base62Chars" by simp
  then consider "\<exists>c\<in>set (take 11 s). c \<notin> set base62Chars"
    | "\<exists>c\<in>set (drop 11 s). c \<notin> set base62Chars"
    unfolding set_append by blast
  then show ?thesis
  proof cases
    case 1
    then have "decodeLong (take 11 s) = Inl ErrInvalidChar" using l1 by (rule decodeLong_bad [rotated])
    then show ?thesis using len by (simp add: FromString_def size_enc_def)
  next
    case 2
    then have d2: "decodeLong (drop 11 s) = Inl ErrInvalidChar" using l2 by (rule decodeLong_bad [rotated])
    from decodeLong_cases [OF l1] show ?thesis
      using len d2 by (auto simp: FromString_def size_enc_def)
  qed
qed

lemma FromString_halves:
  "FromString s = Inr k \<Longrightarrow> decodeLong (take 11 s) = Inr (msb k) \<and> decodeLong (drop 11 s) = Inr (lsb k)"
  by (auto simp: FromString_def size_enc_def split: if_splits sum.splits)

section \<open>The binary form round-trips\<close>

lemma Uint64_byte0: "ucast (drop_bit 56 (BigEndian_Uint64 [b0,b1,b2,b3,b4,b5,b6,b7])) = b0"
  unfolding BigEndian_Uint64_def
  by (rule bit_word_eqI) (auto simp: bit_simps dest: bit_imp_le_length)

lemma Uint64_byte1: "ucast (drop_bit 48 (BigEndian_Uint64 [b0,b1,b2,b3,b4,b5,b6,b7])) = b1"
  unfolding BigEndian_Uint64_def
  by (rule bit_word_eqI) (auto simp: bit_simps dest: bit_imp_le_length)

lemma Uint64_byte2: "ucast (drop_bit 40 (BigEndian_Uint64 [b0,b1,b2,b3,b4,b5,b6,b7])) = b2"
  unfolding BigEndian_Uint64_def
  by (rule bit_word_eqI) (auto simp: bit_simps dest: bit_imp_le_length)

lemma Uint64_byte3: "ucast (drop_bit 32 (BigEndian_Uint64 [b0,b1,b2,b3,b4,b5,b6,b7])) = b3"
  unfolding BigEndian_Uint64_def
  by (rule bit_word_eqI) (auto simp: bit_simps dest: bit_imp_le_length)

lemma Uint64_byte4: "ucast (drop_bit 24 (BigEndian_Uint64 [b0,b1,b2,b3,b4,b5,b6,b7])) = b4"
  unfolding BigEndian_Uint64_def
  by (rule bit_word_eqI) (auto simp: bit_simps dest: bit_imp_le_length)

lemma Uint64_byte5: "ucast (drop_bit 16 (BigEndian_Uint64 [b0,b1,b2,b3,b4,b5,b6,b7])) = b5"
  unfolding BigEndian_Uint64_def
  by (rule bit_word_eqI) (auto simp: bit_simps dest: bit_imp_le_length)

lemma Uint64_byte6: "ucast (drop_bit 8 (BigEndian_Uint64 [b0,b1,b2,b3,b4,b5,b6,b7])) = b6"
  unfolding BigEndian_Uint64_def
  by (rule bit_word_eqI) (auto simp: bit_simps dest: bit_imp_le_length)

lemma Uint64_byte7: "ucast (BigEndian_Uint64 [b0,b1,b2,b3,b4,b5,b6,b7]) = b7"
  unfolding BigEndian_Uint64_def
  by (rule bit_word_eqI) (auto simp: bit_simps dest: bit_imp_le_length)

lemmas Uint64_bytes = Uint64_byte0 Uint64_byte1 Uint64_byte2 Uint64_byte3
  Uint64_byte4 Uint64_byte5 Uint64_byte6 Uint64_byte7

lemma list8: "length (b :: 'a list) = 8 \<Longrightarrow> \<exists>b0 b1 b2 b3 b4 b5 b6 b7. b = [b0,b1,b2,b3,b4,b5,b6,b7]"
  by (simp add: length_Suc_conv numeral_eq_Suc) blast

lemma Put_Uint64:
  assumes "length b = 8" "length z = 8"
  shows "BigEndian_PutUint64 z (BigEndian_Uint64 b) = b"
proof -
  from list8 [OF assms(1)] obtain b0 b1 b2 b3 b4 b5 b6 b7 where b: "b = [b0,b1,b2,b3,b4,b5,b6,b7]" by blast
  from list8 [OF assms(2)] obtain z0 z1 z2 z3 z4 z5 z6 z7 where z: "z = [z0,z1,z2,z3,z4,z5,z6,z7]" by blast
  show ?thesis
    unfolding b z BigEndian_PutUint64_def by (simp add: Uint64_bytes)
qed

lemma Bytes_FromBytes:
  assumes "length b = 16"
  shows "FromBytes b = Inr \<lparr>msb = BigEndian_Uint64 (take 8 b), lsb = BigEndian_Uint64 (drop 8 b)\<rparr>"
    and "Bytes \<lparr>msb = BigEndian_Uint64 (take 8 b), lsb = BigEndian_Uint64 (drop 8 b)\<rparr> = b"
proof -
  show "FromBytes b = Inr \<lparr>msb = BigEndian_Uint64 (take 8 b), lsb = BigEndian_Uint64 (drop 8 b)\<rparr>"
    using assms by (simp add: FromBytes_def slice_def)
  have "BigEndian_PutUint64 (replicate 8 0) (BigEndian_Uint64 (take 8 b)) = take 8 b"
    using assms by (simp add: Put_Uint64)
  moreover have "BigEndian_PutUint64 (replicate 8 0) (BigEndian_Uint64 (drop 8 b)) = drop 8 b"
    using assms by (simp add: Put_Uint64)
  ultimately show "Bytes \<lparr>msb = BigEndian_Uint64 (take 8 b), lsb = BigEndian_Uint64 (drop 8 b)\<rparr> = b"
    by (simp add: Bytes_def slice_def)
qed

lemma shift_or: "push_bit 8 (w :: u64) OR ucast (x :: byte) = w * 256 + ucast x"
proof -
  have "push_bit 8 w + ucast x = push_bit 8 w OR ucast x"
    by (rule disjunctive_add) (auto simp: bit_simps dest: bit_imp_le_length)
  then show ?thesis by (simp add: push_bit_eq_mult)
qed

lemma Uint64_horner:
  "BigEndian_Uint64 [b0,b1,b2,b3,b4,b5,b6,b7] =
     push_bit 8 (push_bit 8 (push_bit 8 (push_bit 8 (push_bit 8 (push_bit 8 (push_bit 8 (ucast b0) OR ucast b1) OR ucast b2) OR ucast b3) OR ucast b4) OR ucast b5) OR ucast b6) OR ucast b7"
  unfolding BigEndian_Uint64_def
  by (rule bit_word_eqI) (auto simp: bit_simps dest: bit_imp_le_length)

lemma Uint64_value:
  "BigEndian_Uint64 [b0,b1,b2,b3,b4,b5,b6,b7] = of_nat (be_value [b0,b1,b2,b3,b4,b5,b6,b7] 0)"
  unfolding Uint64_horner shift_or
  by simp

lemma be_value_bound: "a < 256 ^ n \<Longrightarrow> be_value xs a < 256 ^ (n + length xs)"
proof (induction xs arbitrary: a n)
  case Nil then show ?case by simp
next
  case (Cons x xs)
  have "unat x < 256" using unsigned_less [of x] by simp
  with Cons.prems have "a * 256 + unat x < 256 ^ Suc n"
    by simp
  from Cons.IH [OF this] show ?case by simp
qed

lemma unat_Uint64:
  assumes "length b = 8"
  shows "unat (BigEndian_Uint64 b) = be_value b 0"
proof -
  from list8 [OF assms] obtain b0 b1 b2 b3 b4 b5 b6 b7 where b: "b = [b0,b1,b2,b3,b4,b5,b6,b7]" by blast
  have "be_value b 0 < 256 ^ (0 + length b)"
    by (rule be_value_bound) simp
  then have "be_value b 0 < 2 ^ 64" using assms by simp
  then have "unat (of_nat (be_value b 0) :: u64) = be_value b 0"
    by (simp add: unat_of_nat)
  moreover have "BigEndian_Uint64 b = of_nat (be_value b 0)"
    unfolding b by (rule Uint64_value)
  ultimately show ?thesis by simp
qed

section \<open>Hexadecimal text and the UUID form\<close>

lemma hexdigits_table:
  "list_all (\<lambda>c. reverseHexTable c \<le> 15 \<and> hextable ! unat (reverseHexTable c) = lowerHex c
       \<and> c \<noteq> CHR ''-'')
     ''0123456789abcdefABCDEF''"
  by (simp add: reverseHexTable_def hextable_def lowerHex_def)

lemma hexdigit_cases:
  assumes "isHexDigit c"
  shows "reverseHexTable c \<le> 15" and "hextable ! unat (reverseHexTable c) = lowerHex c"
    and "c \<noteq> CHR ''-''"
  using assms hexdigits_table unfolding isHexDigit_def list_all_iff by blast+

lemma nibble_eq: "a \<le> 15 \<Longrightarrow> take_bit 4 a = (a :: byte)"
proof -
  assume "a \<le> 15"
  then have "a < 2 ^ 4" by (simp add: word_le_nat_alt word_less_nat_alt)
  then have "a AND mask 4 = a" by (rule less_mask_eq)
  then show ?thesis by (simp add: take_bit_eq_mask)
qed

lemma nibbles_tb:
  "drop_bit 4 (push_bit 4 (take_bit 4 a) OR take_bit 4 b) = take_bit 4 (a :: byte)"
  "(push_bit 4 (take_bit 4 a) OR take_bit 4 b) AND 15 = take_bit 4 (b :: byte)"
proof -
  show "drop_bit 4 (push_bit 4 (take_bit 4 a) OR take_bit 4 b) = take_bit 4 a"
    by (rule bit_word_eqI) (auto simp: bit_simps dest: bit_imp_le_length)
  have m: "(15 :: byte) = mask 4" by (simp add: mask_eq_exp_minus_1)
  show "(push_bit 4 (take_bit 4 a) OR take_bit 4 b) AND 15 = take_bit 4 b"
    unfolding m by (rule bit_word_eqI) (auto simp: bit_simps dest: bit_imp_le_length)
qed

lemma nibbles:
  assumes "a \<le> 15" "b \<le> 15"
  shows "drop_bit 4 (push_bit 4 a OR b) = (a :: byte)" and "(push_bit 4 a OR b) AND 15 = b"
  using nibbles_tb [of a b] assms by (simp_all add: nibble_eq)

lemma lowerHex_hyphen: "lowerHex (CHR ''-'') = CHR ''-''"
  by (simp add: lowerHex_def)

lemma lowerHex_id: "c \<notin> set ''ABCDEF'' \<Longrightarrow> lowerHex c = c"
  by (simp add: lowerHex_def)

lemma hex_roundtrip:
  "list_all isHexDigit cs \<Longrightarrow> even (length cs) \<Longrightarrow>
     \<exists>bs. hex_Decode cs = Inr bs \<and> 2 * length bs = length cs
          \<and> hex_EncodeToString bs = map lowerHex cs"
proof (induction cs rule: hex_Decode.induct)
  case 1
  then show ?case by simp
next
  case (2 p)
  then show ?case by simp
next
  case (3 p q src)
  from "3.prems" have p: "isHexDigit p" and q: "isHexDigit q"
    and src: "list_all isHexDigit src" and ev: "even (length src)" by simp_all
  from p have pa: "reverseHexTable p \<le> 15"
    and pl: "hextable ! unat (reverseHexTable p) = lowerHex p" by (rule hexdigit_cases)+
  from q have qa: "reverseHexTable q \<le> 15"
    and ql: "hextable ! unat (reverseHexTable q) = lowerHex q" by (rule hexdigit_cases)+
  from "3.IH" [OF refl refl _ _ src ev] pa qa obtain bs where
    bs: "hex_Decode src = Inr bs" "2 * length bs = length src"
        "hex_EncodeToString bs = map lowerHex src"
    by (auto simp: not_less)
  have "hex_Decode (p # q # src) = Inr ((push_bit 4 (reverseHexTable p) OR reverseHexTable q) # bs)"
    using pa qa bs(1) by (simp add: Let_def not_less [symmetric])
  moreover have "hex_EncodeToString ((push_bit 4 (reverseHexTable p) OR reverseHexTable q) # bs)
      = map lowerHex (p # q # src)"
    using nibbles [OF pa qa] pl ql bs(3) by simp
  ultimately show ?case using bs(2) by simp
qed

lemma filter_hex: "list_all isHexDigit xs \<Longrightarrow> filter (\<lambda>c. c \<noteq> CHR ''-'') xs = xs"
  by (induction xs) (auto dest: hexdigit_cases(3))

lemma ContainsRune_hex: "ContainsRune ''0123456789abcdefABCDEF'' = isHexDigit"
  by (rule ext) (simp only: ContainsRune_def isHexDigit_def)

lemma FromUUID_parts:
  assumes la: "length a = 8" and lb: "length b = 4" and lc: "length c = 4"
    and ld: "length d = 4" and le: "length e = 12"
    and hex: "list_all isHexDigit (a @ b @ c @ d @ e)"
  shows "\<exists>k. FromUUID (a @ ''-'' @ b @ ''-'' @ c @ ''-'' @ d @ ''-'' @ e) = Inr k
           \<and> ToUUID k = map lowerHex (a @ ''-'' @ b @ ''-'' @ c @ ''-'' @ d @ ''-'' @ e)"
proof -
  let ?u = "a @ ''-'' @ b @ ''-'' @ c @ ''-'' @ d @ ''-'' @ e"
  let ?clean = "a @ b @ c @ d @ e"
  have hy: "someNotHyphen ?u [8, 13, 18, 23] = Inr False"
    using la lb lc ld le by (simp add: byteAt_def nth_append)
  have cl: "removeHyphens ?u = ?clean"
    using hex by (simp add: removeHyphens_def filter_hex)
  have len: "length ?clean = 32"
    using la lb lc ld le by simp
  from len have ev: "even (length ?clean)" by simp
  from hex_roundtrip [OF hex ev] obtain bs where
    bs: "hex_Decode ?clean = Inr bs" "2 * length bs = length ?clean"
        "hex_EncodeToString bs = map lowerHex ?clean"
    by blast
  from bs(2) len have l16: "length bs = 16" by simp
  let ?k = "\<lparr>msb = BigEndian_Uint64 (take 8 bs), lsb = BigEndian_Uint64 (drop 8 bs)\<rparr>"
  have fb: "FromBytes bs = Inr ?k" and bk: "Bytes ?k = bs"
    using l16 by (rule Bytes_FromBytes)+
  have "FromUUID ?u = Inr ?k"
    unfolding FromUUID_def hy cl
    using len hex bs(1) fb by (simp add: HasPrefix_def ContainsRune_hex)
  moreover have "ToUUID ?k = map lowerHex ?u"
    unfolding ToUUID_def bk Let_def bs(3)
    using la lb lc ld le by (simp add: slice_def lowerHex_hyphen)
  ultimately show ?thesis by blast
qed

lemma uuidShaped_nth:
  assumes "uuidShaped u" and "i < 36"
  shows "if i \<in> {8, 13, 18, 23} then u ! i = CHR ''-'' else isHexDigit (u ! i)"
  using assms by (simp add: uuidShaped_def list_all_iff)

lemma uuidShaped_parts:
  assumes "uuidShaped u"
  shows "\<exists>a b c d e. u = a @ ''-'' @ b @ ''-'' @ c @ ''-'' @ d @ ''-'' @ e
           \<and> length a = 8 \<and> length b = 4 \<and> length c = 4 \<and> length d = 4 \<and> length e = 12
           \<and> list_all isHexDigit (a @ b @ c @ d @ e)"
proof -
  from assms have len: "length u = 36" by (simp add: uuidShaped_def)
  have h8: "u ! 8 = CHR ''-''" and h13: "u ! 13 = CHR ''-''"
    and h18: "u ! 18 = CHR ''-''" and h23: "u ! 23 = CHR ''-''"
    using uuidShaped_nth [OF assms, of 8] uuidShaped_nth [OF assms, of 13]
      uuidShaped_nth [OF assms, of 18] uuidShaped_nth [OF assms, of 23] by simp_all
  have hexat: "isHexDigit (u ! i)" if "i < 36" "i \<notin> {8, 13, 18, 23}" for i
    using uuidShaped_nth [OF assms that(1)] that(2) by simp
  let ?a = "take 8 u" and ?b = "take 4 (drop 9 u)" and ?c = "take 4 (drop 14 u)"
  let ?d = "take 4 (drop 19 u)" and ?e = "drop 24 u"
  have s1: "u = ?a @ CHR ''-'' # drop 9 u"
    using id_take_nth_drop [of 8 u] len h8 by simp
  have s2: "drop 9 u = ?b @ CHR ''-'' # drop 14 u"
    using id_take_nth_drop [of 4 "drop 9 u"] len h13 by simp
  have s3: "drop 14 u = ?c @ CHR ''-'' # drop 19 u"
    using id_take_nth_drop [of 4 "drop 14 u"] len h18 by simp
  have s4: "drop 19 u = ?d @ CHR ''-'' # ?e"
    using id_take_nth_drop [of 4 "drop 19 u"] len h23 by simp
  have eq: "u = ?a @ ''-'' @ ?b @ ''-'' @ ?c @ ''-'' @ ?d @ ''-'' @ ?e"
    using s1 s2 s3 s4 by simp
  have ha: "list_all isHexDigit ?a"
    using len by (auto simp: list_all_length intro!: hexat)
  have hb: "list_all isHexDigit ?b"
    using len by (auto simp: list_all_length intro!: hexat)
  have hc: "list_all isHexDigit ?c"
    using len by (auto simp: list_all_length intro!: hexat)
  have hd: "list_all isHexDigit ?d"
    using len by (auto simp: list_all_length intro!: hexat)
  have he: "list_all isHexDigit ?e"
    using len by (auto simp: list_all_length intro!: hexat)
  have "list_all isHexDigit (?a @ ?b @ ?c @ ?d @ ?e)"
    using ha hb hc hd he by simp
  moreover have "length ?a = 8" "length ?b = 4" "length ?c = 4" "length ?d = 4" "length ?e = 12"
    using len by simp_all
  ultimately show ?thesis using eq by blast
qed

section \<open>The code at some concrete inputs\<close>

lemmas FromUUID_eval = FromUUID_def HasPrefix_def byteAt_def removeHyphens_def ContainsRune_def
  reverseHexTable_def FromBytes_def BigEndian_Uint64_def slice_def

lemma FromUUID_empty: "FromUUID '''' = Inl PanicIndexOutOfRange"
  by (simp add: FromUUID_eval)

lemma FromUUID_37: "FromUUID ''00000000-0000-0000-0000-000000000000-'' = Inr \<lparr>msb = 0, lsb = 0\<rparr>"
  by (simp add: FromUUID_eval)

lemma FromUUID_zero: "FromUUID ''00000000-0000-0000-0000-000000000000'' = Inr \<lparr>msb = 0, lsb = 0\<rparr>"
  by (simp add: FromUUID_eval)

lemma String_zero: "KUID_String \<lparr>msb = 0, lsb = 0\<rparr> = replicate 22 (CHR ''0'')"
  by (simp add: KUID_String_def encodeLong_digits digits62_zero replicate_add [symmetric])

lemma Bytes_zero: "Bytes \<lparr>msb = 0, lsb = 0\<rparr> = replicate 16 0"
  by (simp add: Bytes_def BigEndian_PutUint64_def slice_def numeral_eq_Suc)

section \<open>Properties of the package\<close>

subsection \<open>UUID text: the length check\<close>

text \<open>
  C1. The claim reads: for every string whose length is not 36, \<^verbatim>\<open>FromUUID\<close> fails with
  \<^verbatim>\<open>ErrInvalidUUID\<close>, the prefix test in front of the length test being without
  effect. The code does not do that. Its guard is
  \<^verbatim>\<open>!strings.HasPrefix(uuid, "") && len(uuid) != 36\<close>; every string has the empty
  prefix, so the guard is never true and the length is never tested. The empty string
  then reaches \<^verbatim>\<open>uuid[8]\<close> and panics, and a well-formed UUID followed by one more
  hyphen (37 bytes) is accepted. The theorem evaluates the code at both inputs.
\<close>

theorem C1_FromUUID_length_unchecked:
  "length ('''' :: string) = 0
   \<and> FromUUID '''' = Inl PanicIndexOutOfRange
   \<and> length ''00000000-0000-0000-0000-000000000000-'' = 37
   \<and> FromUUID ''00000000-0000-0000-0000-000000000000-'' = Inr \<lparr>msb = 0, lsb = 0\<rparr>"
  by (simp add: FromUUID_empty FromUUID_37)

subsection \<open>The codec\<close>

text \<open>
  C2. For every 64-bit unsigned integer \<open>v\<close>, decoding the encoding of \<open>v\<close> succeeds
  and returns \<open>v\<close>: the base-62 codec round-trips every \<^verbatim>\<open>uint64\<close> exactly.
\<close>

theorem C2_decodeLong_encodeLong: "decodeLong (encodeLong v) = Inr v"
  by (rule decode_encode)

subsection \<open>Binary form\<close>

text \<open>
  C3. For every byte sequence \<open>b\<close> of length exactly 16, \<^verbatim>\<open>FromBytes(b)\<close> succeeds and
  its \<^verbatim>\<open>Bytes()\<close> are \<open>b\<close> again; the high half is the big-endian value of
  \<^verbatim>\<open>b[0:8]\<close> and the low half that of \<^verbatim>\<open>b[8:16]\<close>.
\<close>

theorem C3_FromBytes_Bytes:
  assumes "length b = 16"
  shows "\<exists>k. FromBytes b = Inr k \<and> Bytes k = b
           \<and> unat (msb k) = be_value (slice b 0 8) 0
           \<and> unat (lsb k) = be_value (slice b 8 16) 0"
proof -
  let ?k = "\<lparr>msb = BigEndian_Uint64 (take 8 b), lsb = BigEndian_Uint64 (drop 8 b)\<rparr>"
  have "FromBytes b = Inr ?k" and "Bytes ?k = b"
    using assms by (rule Bytes_FromBytes)+
  moreover have "unat (msb ?k) = be_value (slice b 0 8) 0"
    using assms by (simp add: unat_Uint64 slice_def)
  moreover have "unat (lsb ?k) = be_value (slice b 8 16) 0"
    using assms by (simp add: unat_Uint64 slice_def)
  ultimately show ?thesis by blast
qed

theorem C3_FromBytes_Bytes_witness:
  "length [0x12, 0x3e, 0x45, 0x67, 0xe8, 0x9b, 0x12, 0xd3,
           0xa4, 0x56, 0x42, 0x66, 0x14, 0x17, 0x40, 0x00 :: byte] = 16
   \<and> (\<exists>k. FromBytes [0x12, 0x3e, 0x45, 0x67, 0xe8, 0x9b, 0x12, 0xd3,
                      0xa4, 0x56, 0x42, 0x66, 0x14, 0x17, 0x40, 0x00] = Inr k
          \<and> Bytes k = [0x12, 0x3e, 0x45, 0x67, 0xe8, 0x9b, 0x12, 0xd3,
                        0xa4, 0x56, 0x42, 0x66, 0x14, 0x17, 0x40, 0x00]
          \<and> unat (msb k) = 0x123e4567e89b12d3
          \<and> unat (lsb k) = 0xa456426614174000)"
proof -
  let ?b = "[0x12, 0x3e, 0x45, 0x67, 0xe8, 0x9b, 0x12, 0xd3,
             0xa4, 0x56, 0x42, 0x66, 0x14, 0x17, 0x40, 0x00 :: byte]"
  have len: "length ?b = 16" by simp
  have hi: "be_value (slice ?b 0 8) 0 = 0x123e4567e89b12d3"
    by (simp add: slice_def)
  have lo: "be_value (slice ?b 8 16) 0 = 0xa456426614174000"
    by (simp add: slice_def)
  from C3_FromBytes_Bytes [OF len] show ?thesis
    unfolding hi lo using len by blast
qed

subsection \<open>UUID text\<close>

text \<open>
  C4. For every 36-character UUID text \<open>u\<close> with hyphens at the positions 8, 13, 18, 23
  and hexadecimal digits elsewhere, \<^verbatim>\<open>FromUUID(u)\<close> succeeds and \<^verbatim>\<open>ToUUID\<close> of the
  result is \<open>u\<close> with its hexadecimal digits in lower case; when \<open>u\<close> has no upper-case
  digit the result is \<open>u\<close> itself.
\<close>

theorem C4_FromUUID_ToUUID:
  assumes "uuidShaped u"
  shows "\<exists>k. FromUUID u = Inr k \<and> ToUUID k = map lowerHex u
           \<and> ((\<forall>c\<in>set u. c \<notin> set ''ABCDEF'') \<longrightarrow> ToUUID k = u)"
proof -
  from uuidShaped_parts [OF assms] obtain a b c d e where
    u: "u = a @ ''-'' @ b @ ''-'' @ c @ ''-'' @ d @ ''-'' @ e"
    and l: "length a = 8" "length b = 4" "length c = 4" "length d = 4" "length e = 12"
    and hex: "list_all isHexDigit (a @ b @ c @ d @ e)"
    by blast
  from FromUUID_parts [OF l hex] obtain k where
    k: "FromUUID u = Inr k" "ToUUID k = map lowerHex u"
    unfolding u by blast
  have "map lowerHex u = u" if "\<forall>c\<in>set u. c \<notin> set ''ABCDEF''"
    using that by (intro map_idI) (simp add: lowerHex_id)
  with k show ?thesis by auto
qed

theorem C4_FromUUID_ToUUID_witness:
  "uuidShaped ''123E4567-e89b-12d3-a456-426614174000''
   \<and> (\<exists>k. FromUUID ''123E4567-e89b-12d3-a456-426614174000'' = Inr k
          \<and> ToUUID k = ''123e4567-e89b-12d3-a456-426614174000'')
   \<and> uuidShaped ''ffffffff-ffff-ffff-ffff-ffffffffffff''
   \<and> set ''ffffffff-ffff-ffff-ffff-ffffffffffff'' \<inter> set ''ABCDEF'' = {}
   \<and> (\<exists>k. FromUUID ''ffffffff-ffff-ffff-ffff-ffffffffffff'' = Inr k
          \<and> ToUUID k = ''ffffffff-ffff-ffff-ffff-ffffffffffff'')"
proof -
  have s1: "uuidShaped ''123E4567-e89b-12d3-a456-426614174000''"
    by (simp add: uuidShaped_def isHexDigit_def upt_rec)
  have m1: "map lowerHex ''123E4567-e89b-12d3-a456-426614174000''
      = ''123e4567-e89b-12d3-a456-426614174000''"
    by (simp add: lowerHex_def)
  have s2: "uuidShaped ''ffffffff-ffff-ffff-ffff-ffffffffffff''"
    by (simp add: uuidShaped_def isHexDigit_def upt_rec)
  have lc: "\<forall>c\<in>set ''ffffffff-ffff-ffff-ffff-ffffffffffff''. c \<notin> set ''ABCDEF''"
    by simp
  from C4_FromUUID_ToUUID [OF s1] have
    "\<exists>k. FromUUID ''123E4567-e89b-12d3-a456-426614174000'' = Inr k
        \<and> ToUUID k = ''123e4567-e89b-12d3-a456-426614174000''"
    unfolding m1 by blast
  moreover from C4_FromUUID_ToUUID [OF s2] lc have
    "\<exists>k. FromUUID ''ffffffff-ffff-ffff-ffff-ffffffffffff'' = Inr k
        \<and> ToUUID k = ''ffffffff-ffff-ffff-ffff-ffffffffffff''"
    by blast
  moreover have "set ''ffffffff-ffff-ffff-ffff-ffffffffffff'' \<inter> set ''ABCDEF'' = {}"
    by simp
  ultimately show ?thesis using s1 s2 by blast
qed

subsection \<open>Compact text\<close>

text \<open>
  C5. For every identifier \<open>k\<close>, \<^verbatim>\<open>FromString(k.String())\<close> succeeds, and its result and
  \<open>k\<close> are equal under \<^verbatim>\<open>Equal\<close>.
\<close>

theorem C5_FromString_String:
  "\<exists>k'. FromString (KUID_String k) = Inr k' \<and> Equal k' (Some k) \<and> Equal k (Some k')"
  by (simp add: FromString_String Equal_def)

text \<open>
  C6. \<^verbatim>\<open>FromString(s)\<close> fails with \<^verbatim>\<open>ErrInvalidLength\<close> when the length of \<open>s\<close> is not
  22; it fails with \<^verbatim>\<open>ErrInvalidChar\<close> when \<open>s\<close> has 22 characters and one of them is
  outside the alphabet; on success the first 11 characters decode to the high half and
  the last 11 to the low half, so that the text with its halves swapped gives the
  identifier with its halves swapped.
\<close>

theorem C6_FromString_errors_and_halves:
  "(length s \<noteq> 22 \<longrightarrow> FromString s = Inl ErrInvalidLength)
   \<and> (length s = 22 \<and> (\<exists>c\<in>set s. c \<notin> set base62Chars)
        \<longrightarrow> FromString s = Inl ErrInvalidChar)
   \<and> (FromString s = Inr k
        \<longrightarrow> decodeLong (take 11 s) = Inr (msb k) \<and> decodeLong (drop 11 s) = Inr (lsb k)
          \<and> FromString (drop 11 s @ take 11 s) = Inr \<lparr>msb = lsb k, lsb = msb k\<rparr>)"
proof (intro conjI impI)
  assume "length s \<noteq> 22"
  then show "FromString s = Inl ErrInvalidLength" by (rule FromString_len)
next
  assume "length s = 22 \<and> (\<exists>c\<in>set s. c \<notin> set base62Chars)"
  then show "FromString s = Inl ErrInvalidChar" by (simp add: FromString_bad)
next
  assume ok: "FromString s = Inr k"
  then show "decodeLong (take 11 s) = Inr (msb k)" and "decodeLong (drop 11 s) = Inr (lsb k)"
    by (simp_all add: FromString_halves)
  from ok have len: "length s = 22"
    by (simp add: FromString_def size_enc_def split: if_splits)
  then have "length (take 11 s) = 11" and "length (drop 11 s) = 11" by simp_all
  moreover from ok have "FromString (take 11 s @ drop 11 s) = Inr k" by simp
  ultimately show "FromString (drop 11 s @ take 11 s) = Inr \<lparr>msb = lsb k, lsb = msb k\<rparr>"
    by (rule FromString_swap)
qed

theorem C6_FromString_errors_and_halves_witness:
  "length ''ABC'' \<noteq> 22 \<and> FromString ''ABC'' = Inl ErrInvalidLength
   \<and> length ''!!!!!!!!!!!!!!!!!!!!!!'' = 22
   \<and> (\<exists>c\<in>set ''!!!!!!!!!!!!!!!!!!!!!!''. c \<notin> set base62Chars)
   \<and> FromString ''!!!!!!!!!!!!!!!!!!!!!!'' = Inl ErrInvalidChar
   \<and> FromString ''0000000000000000000001'' = Inr \<lparr>msb = 0, lsb = 1\<rparr>
   \<and> decodeLong ''00000000000'' = Inr 0
   \<and> decodeLong ''00000000001'' = Inr 1
   \<and> FromString ''0000000000100000000000'' = Inr \<lparr>msb = 1, lsb = 0\<rparr>"
proof -
  have h1: "length ''ABC'' \<noteq> 22" by simp
  have h2: "length ''!!!!!!!!!!!!!!!!!!!!!!'' = 22
      \<and> (\<exists>c\<in>set ''!!!!!!!!!!!!!!!!!!!!!!''. c \<notin> set base62Chars)"
    by (simp add: base62Chars_def)
  have h3: "FromString ''0000000000000000000001'' = Inr \<lparr>msb = 0, lsb = 1\<rparr>"
    by (simp add: FromString_def decodeLong_def size_enc_def base62Chars_def base_62)
  from C6_FromString_errors_and_halves [of "''ABC''" "\<lparr>msb = 0, lsb = 1\<rparr>"] h1
  have r1: "FromString ''ABC'' = Inl ErrInvalidLength" by blast
  from C6_FromString_errors_and_halves [of "''!!!!!!!!!!!!!!!!!!!!!!''" "\<lparr>msb = 0, lsb = 1\<rparr>"] h2
  have r2: "FromString ''!!!!!!!!!!!!!!!!!!!!!!'' = Inl ErrInvalidChar" by blast
  from C6_FromString_errors_and_halves [of "''0000000000000000000001''" "\<lparr>msb = 0, lsb = 1\<rparr>"] h3
  have r3: "decodeLong ''00000000000'' = Inr 0 \<and> decodeLong ''00000000001'' = Inr 1
      \<and> FromString ''0000000000100000000000'' = Inr \<lparr>msb = 1, lsb = 0\<rparr>"
    by simp
  from h1 h2 h3 r1 r2 r3 show ?thesis by blast
qed

subsection \<open>Binary form: the length check\<close>

text \<open>
  C7, as claimed: a byte sequence whose length is not 16 makes \<^verbatim>\<open>FromBytes\<close> fail with
  the error \<^verbatim>\<open>ErrInvalidLength\<close>. The code returns another error there, the one it
  builds with \<^verbatim>\<open>errors.New("byte slice must be exactly 16 bytes")\<close>: fifteen zero bytes
  are rejected, but not with \<^verbatim>\<open>ErrInvalidLength\<close>.
\<close>

theorem C7_FromBytes_not_ErrInvalidLength:
  "length (replicate 15 (0 :: byte)) = 15
   \<and> FromBytes (replicate 15 0) = Inl ErrByteSliceNot16
   \<and> FromBytes (replicate 15 0) \<noteq> Inl ErrInvalidLength"
  by (simp add: FromBytes_def)

text \<open>
  C7, amended: a byte sequence whose length is not 16 (15 and 17 included) makes
  \<^verbatim>\<open>FromBytes\<close> fail with its own error, \<^verbatim>\<open>"byte slice must be exactly 16 bytes"\<close>, which
  is not \<^verbatim>\<open>ErrInvalidLength\<close>; a sequence of 16 bytes is accepted, and is what
  \<^verbatim>\<open>Bytes\<close> gives back: nothing is truncated or padded.
\<close>

theorem C7_FromBytes_length:
  "(length b \<noteq> 16 \<longrightarrow> FromBytes b = Inl ErrByteSliceNot16)
   \<and> (length b = 16 \<longrightarrow> (\<exists>k. FromBytes b = Inr k \<and> Bytes k = b))
   \<and> ErrByteSliceNot16 \<noteq> ErrInvalidLength"
proof (intro conjI impI)
  assume "length b \<noteq> 16"
  then show "FromBytes b = Inl ErrByteSliceNot16" by (simp add: FromBytes_def)
next
  assume "length b = 16"
  then have "FromBytes b
      = Inr \<lparr>msb = BigEndian_Uint64 (take 8 b), lsb = BigEndian_Uint64 (drop 8 b)\<rparr>"
    and "Bytes \<lparr>msb = BigEndian_Uint64 (take 8 b), lsb = BigEndian_Uint64 (drop 8 b)\<rparr> = b"
    by (rule Bytes_FromBytes)+
  then show "\<exists>k. FromBytes b = Inr k \<and> Bytes k = b" by blast
next
  show "ErrByteSliceNot16 \<noteq> ErrInvalidLength" by simp
qed

theorem C7_FromBytes_length_witness:
  "length (replicate 15 (0 :: byte)) \<noteq> 16
   \<and> FromBytes (replicate 15 0) = Inl ErrByteSliceNot16
   \<and> length (replicate 17 (0 :: byte)) \<noteq> 16
   \<and> FromBytes (replicate 17 0) = Inl ErrByteSliceNot16
   \<and> length (replicate 16 (0 :: byte)) = 16
   \<and> (\<exists>k. FromBytes (replicate 16 0) = Inr k \<and> Bytes k = replicate 16 0)"
proof -
  have h15: "length (replicate 15 (0 :: byte)) \<noteq> 16" by simp
  have h17: "length (replicate 17 (0 :: byte)) \<noteq> 16" by simp
  have h16: "length (replicate 16 (0 :: byte)) = 16" by simp
  from C7_FromBytes_length [of "replicate 15 0"] h15
  have r15: "FromBytes (replicate 15 0) = Inl ErrByteSliceNot16" by blast
  from C7_FromBytes_length [of "replicate 17 0"] h17
  have r17: "FromBytes (replicate 17 0) = Inl ErrByteSliceNot16" by blast
  from C7_FromBytes_length [of "replicate 16 0"] h16
  have r16: "\<exists>k. FromBytes (replicate 16 0) = Inr k \<and> Bytes k = replicate 16 0" by blast
  from h15 h17 h16 r15 r17 r16 show ?thesis by blast
qed

subsection \<open>Fixed width of the encoding\<close>

text \<open>
  C8. For every \<^verbatim>\<open>uint64\<close> \<open>v\<close>, \<^verbatim>\<open>encodeLong(v)\<close> has exactly 11 characters, all of the
  alphabet, and is padded on the left with \<^verbatim>\<open>'0'\<close>, the character of index 0: a value
  below \<open>62 ^ n\<close> has \<open>11 - n\<close> leading zeros. So the all-zero UUID has the compact text
  of 22 characters \<^verbatim>\<open>'0'\<close> and the binary form of 16 zero bytes.
\<close>

theorem C8_encodeLong_fixed_width:
  "length (encodeLong v) = 11
   \<and> (\<forall>c\<in>set (encodeLong v). c \<in> set base62Chars)
   \<and> base62Chars ! 0 = CHR ''0''
   \<and> (unat v < 62 ^ n \<longrightarrow> take (11 - n) (encodeLong v) = replicate (11 - n) (CHR ''0''))
   \<and> FromUUID ''00000000-0000-0000-0000-000000000000'' = Inr \<lparr>msb = 0, lsb = 0\<rparr>
   \<and> KUID_String \<lparr>msb = 0, lsb = 0\<rparr> = replicate 22 (CHR ''0'')
   \<and> Bytes \<lparr>msb = 0, lsb = 0\<rparr> = replicate 16 0"
proof -
  have "length (encodeLong v) = 11" by (rule length_encodeLong)
  moreover have "\<forall>c\<in>set (encodeLong v). c \<in> set base62Chars"
    using set_digits62 [of 11 "unat v"] by (auto simp: encodeLong_digits)
  moreover have "base62Chars ! 0 = CHR ''0''" by (simp add: base62Chars_def)
  moreover have "unat v < 62 ^ n \<longrightarrow>
      take (11 - n) (encodeLong v) = replicate (11 - n) (CHR ''0'')"
    by (simp add: encodeLong_digits digits62_padding)
  ultimately show ?thesis
    by (simp add: FromUUID_zero String_zero Bytes_zero)
qed

theorem C8_encodeLong_fixed_width_witness:
  "unat (61 :: u64) < 62 ^ 1
   \<and> length (encodeLong 61) = 11
   \<and> take 10 (encodeLong 61) = ''0000000000''
   \<and> set (encodeLong 61) \<subseteq> set base62Chars"
proof -
  have h: "unat (61 :: u64) < 62 ^ 1" by simp
  have r: "replicate (11 - 1) (CHR ''0'') = ''0000000000''"
    by (simp add: numeral_eq_Suc)
  from C8_encodeLong_fixed_width [of 61 1] h
  have "length (encodeLong 61) = 11"
    and "take (11 - 1) (encodeLong 61) = replicate (11 - 1) (CHR ''0'')"
    and "\<forall>c\<in>set (encodeLong 61). c \<in> set base62Chars"
    by blast+
  with h r show ?thesis by auto
qed

subsection \<open>Decoding wraps\<close>

text \<open>
  C9. For every string of 11 characters of the alphabet, \<^verbatim>\<open>decodeLong\<close> succeeds; its
  result is the base-62 value of the string modulo \<open>2 ^ 64\<close>. The string
  \<^verbatim>\<open>"zzzzzzzzzzz"\<close>, whose value is \<open>62 ^ 11 - 1\<close>, decodes to
  \<open>(62 ^ 11 - 1) mod 2 ^ 64\<close>.
\<close>

theorem C9_decodeLong_total_wraps:
  "(length s = 11 \<and> (\<forall>c\<in>set s. c \<in> set base62Chars)
      \<longrightarrow> (\<exists>v. decodeLong s = Inr v \<and> unat v = value62 s 0 mod 2 ^ 64))
   \<and> value62 ''zzzzzzzzzzz'' 0 = 62 ^ 11 - 1
   \<and> (2 :: nat) ^ 64 \<le> 62 ^ 11 - 1
   \<and> decodeLong ''zzzzzzzzzzz'' = Inr (of_nat ((62 ^ 11 - 1) mod 2 ^ 64))"
proof (intro conjI impI)
  assume a: "length s = 11 \<and> (\<forall>c\<in>set s. c \<in> set base62Chars)"
  then have sub: "set s \<subseteq> set base62Chars" by auto
  have "decodeLoop s (of_nat 0) = Inr (of_nat (value62 s 0))"
    using sub by (rule decodeLoop_value62)
  with a have "decodeLong s = Inr (of_nat (value62 s 0))"
    by (simp add: decodeLong_def size_enc_def)
  moreover have "unat (of_nat (value62 s 0) :: u64) = value62 s 0 mod 2 ^ 64"
    by (simp add: unat_of_nat)
  ultimately show "\<exists>v. decodeLong s = Inr v \<and> unat v = value62 s 0 mod 2 ^ 64" by blast
next
  show "value62 ''zzzzzzzzzzz'' 0 = 62 ^ 11 - 1" by (rule value62_z)
next
  show "(2 :: nat) ^ 64 \<le> 62 ^ 11 - 1" by simp
next
  show "decodeLong ''zzzzzzzzzzz'' = Inr (of_nat ((62 ^ 11 - 1) mod 2 ^ 64))"
    by (rule decodeLong_z)
qed

theorem C9_decodeLong_total_wraps_witness:
  "length ''zzzzzzzzzzz'' = 11
   \<and> set ''zzzzzzzzzzz'' \<subseteq> set base62Chars
   \<and> (\<exists>v. decodeLong ''zzzzzzzzzzz'' = Inr v
          \<and> unat v = value62 ''zzzzzzzzzzz'' 0 mod 2 ^ 64)"
proof -
  have h: "length ''zzzzzzzzzzz'' = 11 \<and> (\<forall>c\<in>set ''zzzzzzzzzzz''. c \<in> set base62Chars)"
    by (simp add: base62Chars_def)
  from C9_decodeLong_total_wraps [of "''zzzzzzzzzzz''"] h
  have "\<exists>v. decodeLong ''zzzzzzzzzzz'' = Inr v
      \<and> unat v = value62 ''zzzzzzzzzzz'' 0 mod 2 ^ 64"
    by blast
  with h show ?thesis by auto
qed

subsection \<open>Equality and the compact text\<close>

text \<open>
  C10. For two identifiers \<open>a\<close> and \<open>b\<close>, neither absent, \<^verbatim>\<open>a.Equal(b)\<close> is true if and
  only if \<^verbatim>\<open>a.String() == b.String()\<close>: the compact text is injective.
\<close>

theorem C10_Equal_iff_String:
  "Equal a (Some b) = (KUID_String a = KUID_String b)"
proof
  assume "Equal a (Some b)"
  then show "KUID_String a = KUID_String b" by (simp add: Equal_def KUID_String_def)
next
  assume "KUID_String a = KUID_String b"
  then have "encodeLong (msb a) = encodeLong (msb b) \<and> encodeLong (lsb a) = encodeLong (lsb b)"
    by (simp add: KUID_String_def length_encodeLong)
  then show "Equal a (Some b)"
    by (auto simp: Equal_def dest: encodeLong_inj)
qed

end
